theory Spec2Isabelle
  imports Main "HOL-Library.Char_ord" "HOL-Library.List_Lexorder"
begin

section \<open>microunit: the data model\<close>

text \<open>
  \<^verbatim>\<open>struct UnitFunctionResult { bool success{ true }; };\<close>
  The default member initializer is the value of a result that is declared without an
  initializer, as \<^verbatim>\<open>UnitFunctionResult result;\<close> in \<^verbatim>\<open>Run\<close> does.
\<close>

record UnitFunctionResult =
  success :: bool

definition UnitFunctionResult_default :: UnitFunctionResult where
  "UnitFunctionResult_default = \<lparr>success = True\<rparr>"

text \<open>
  \<^verbatim>\<open>typedef void(*UnitFunction)(UnitFunctionResult*);\<close>
  A unit function is called with the client program's own state (of type \<open>'g\<close>: its globals
  and statics) and the result behind the pointer. When it returns it has left a new client
  state, the lines it wrote to \<^verbatim>\<open>std::cout\<close> and the result as it now is. A call that does
  not return (it loops forever, or the process dies in it) is \<open>None\<close>. Standard output is
  write-only: a unit function yields the lines it writes and never sees what was written before.
  A function of this type makes no registration while it runs; a function that calls
  \<^verbatim>\<open>RegisterFunction\<close> during \<^verbatim>\<open>Run\<close> is a \<open>ufun\<close>, below.
\<close>

type_synonym 'g UnitFunction =
  "'g \<Rightarrow> UnitFunctionResult \<Rightarrow> ('g \<times> string list \<times> UnitFunctionResult) option"

text \<open>\<^verbatim>\<open>MICROUNIT_SEPARATOR\<close>: two adjacent literals of forty dashes each.\<close>

definition MICROUNIT_SEPARATOR :: string where
  "MICROUNIT_SEPARATOR =
     ''----------------------------------------'' @ ''----------------------------------------''"

subsection \<open>The ordered map of the catalog\<close>

text \<open>
  \<^verbatim>\<open>std::map<std::string, UnitFunction>\<close> keeps its entries in strictly ascending order of
  the keys under \<^verbatim>\<open>std::less<std::string>\<close>, which compares byte by byte and puts a proper
  prefix first: the order \<open>(<)\<close> of \<open>string\<close>. The map is the list of its entries in iteration
  order. \<^verbatim>\<open>emplace\<close> inserts the pair at its place when the key is absent and leaves the map as
  it is when the key is present.
\<close>

type_synonym 'v string_map = "(string \<times> 'v) list"

definition map_ok :: "'v string_map \<Rightarrow> bool" where
  "map_ok m = sorted_wrt (<) (map fst m)"

fun emplace :: "string \<Rightarrow> 'v \<Rightarrow> 'v string_map \<Rightarrow> 'v string_map" where
  "emplace k v [] = [(k, v)]"
| "emplace k v (e # m) =
     (if k < fst e then (k, v) # e # m
      else if k = fst e then e # m
      else e # emplace k v m)"

subsection \<open>The singleton and the process\<close>

text \<open>
  The one data member, \<^verbatim>\<open>unitfunction_map_\<close> (a name cannot end in an underscore here).
\<close>

record 'g UnitTester =
  unitfunction_map :: "'g UnitFunction string_map"

text \<open>
  The state of the process: the one instance behind \<^verbatim>\<open>UnitTester::Instance()\<close>, the client
  program's state, and the lines written to \<^verbatim>\<open>std::cout\<close> so far (one entry for each
  \<^verbatim>\<open>... << std::endl\<close>). The instance is constructed with an empty map.
\<close>

record 'g process =
  Instance :: "'g UnitTester"
  globals :: 'g
  cout :: "string list"

definition startup :: "'g \<Rightarrow> 'g process" where
  "startup g = \<lparr>Instance = \<lparr>unitfunction_map = []\<rparr>, globals = g, cout = []\<rparr>"

section \<open>Registration\<close>

text \<open>
  \<^verbatim>\<open>static void RegisterFunction(const std::string &name, UnitFunction function)
  { Instance().unitfunction_map_.emplace(name, function); }\<close>
  The result of \<^verbatim>\<open>emplace\<close> is dropped and nothing is returned.
\<close>

definition RegisterFunction :: "string \<Rightarrow> 'g UnitFunction \<Rightarrow> 'g process \<Rightarrow> 'g process" where
  "RegisterFunction name fn p =
     p\<lparr>Instance := (Instance p)\<lparr>unitfunction_map :=
          emplace name fn (unitfunction_map (Instance p))\<rparr>\<rparr>"

text \<open>The constructor of \<^verbatim>\<open>Registrator\<close> calls \<^verbatim>\<open>RegisterFunction\<close> and does nothing else.\<close>

definition Registrator :: "string \<Rightarrow> 'g UnitFunction \<Rightarrow> 'g process \<Rightarrow> 'g process" where
  "Registrator name fn p = RegisterFunction name fn p"

text \<open>Static initialization runs the registrations of a translation unit in their order.\<close>

fun register_all :: "(string \<times> 'g UnitFunction) list \<Rightarrow> 'g process \<Rightarrow> 'g process" where
  "register_all [] p = p"
| "register_all (r # rs) p = register_all rs (Registrator (fst r) (snd r) p)"

section \<open>The driver\<close>

text \<open>\<^verbatim>\<open>std::cout << failures.size()\<close> writes the number in decimal.\<close>

definition digit_char :: "nat \<Rightarrow> char" where
  "digit_char d = char_of (48 + d)"

function show_nat :: "nat \<Rightarrow> string" where
  "show_nat n = (if n < 10 then [digit_char n] else show_nat (n div 10) @ [digit_char (n mod 10)])"
  by pat_completeness auto
termination
  by (relation "measure id") auto

declare show_nat.simps [simp del]

text \<open>
  One pass of the loop body of \<^verbatim>\<open>Run\<close> (lines 99 to 109), on the client state, the output
  and the local vector \<^verbatim>\<open>failures\<close>: the separator and the name of the case are written, a
  result is declared, the function is called on it, the line of the outcome is written and the
  name is pushed when the result is not a success.
\<close>

type_synonym 'g run_state = "'g \<times> string list \<times> string list"

fun run_unit :: "string \<times> 'g UnitFunction \<Rightarrow> 'g run_state \<Rightarrow> 'g run_state option" where
  "run_unit unit (g, out, failures) =
     (let out1 = out @ [MICROUNIT_SEPARATOR];
          out2 = out1 @ [''[    ] Test case '' @ [CHR 0x27] @ fst unit @ [CHR 0x27]];
          result = UnitFunctionResult_default
      in case snd unit g result of
           None \<Rightarrow> None
         | Some (g', printed, result') \<Rightarrow>
             let out3 = out2 @ printed @
                   [if success result' then ''[    ] Success'' else ''[!!!!] Failure'']
             in Some (g', out3,
                      if \<not> success result' then failures @ [fst unit] else failures))"

declare run_unit.simps [simp del]

text \<open>The loop over the entries of the map, in iteration order.\<close>

fun run_units :: "(string \<times> 'g UnitFunction) list \<Rightarrow> 'g run_state \<Rightarrow> 'g run_state option" where
  "run_units [] st = Some st"
| "run_units (unit # units) st =
     (case run_unit unit st of None \<Rightarrow> None | Some st' \<Rightarrow> run_units units st')"

text \<open>
  \<^verbatim>\<open>static bool Run()\<close>: the loop, two separators, and the summary. The value is \<open>None\<close> when
  a unit function does not return; otherwise it is the process as \<^verbatim>\<open>Run\<close> leaves it, with
  the boolean it returns.
\<close>

definition Run :: "'g process \<Rightarrow> ('g process \<times> bool) option" where
  "Run p =
     (case run_units (unitfunction_map (Instance p)) (globals p, cout p, []) of
        None \<Rightarrow> None
      | Some (g, out, failures) \<Rightarrow>
          let out1 = out @ [MICROUNIT_SEPARATOR, MICROUNIT_SEPARATOR]
          in if failures = [] then
               Some (p\<lparr>globals := g,
                       cout := out1 @ [''[    ] All tests passed'', MICROUNIT_SEPARATOR]\<rparr>, True)
             else
               Some (p\<lparr>globals := g,
                       cout := out1
                         @ [''[!!!!] Failed '' @ show_nat (length failures) @ '' test cases:'']
                         @ map (\<lambda>failure. ''> '' @ failure) failures
                         @ [MICROUNIT_SEPARATOR]\<rparr>, False))"

section \<open>Test case bodies and the macros\<close>

text \<open>
  The body that follows \<^verbatim>\<open>UNIT(FUNCTION)\<close> is the body of a function with the parameter
  \<^verbatim>\<open>__microunit_testresult\<close>. A statement of the body acts on a frame: the client state, the
  lines the call has written so far, and the result behind the parameter. It either falls
  through to the next statement, or returns from the function, or never completes.
\<close>

record 'g frame =
  client :: 'g
  written :: "string list"
  testresult :: UnitFunctionResult

datatype 'g flow = Next "'g frame" | Return "'g frame" | Abort

type_synonym 'g stmt = "'g frame \<Rightarrow> 'g flow"

text \<open>Sequencing \<^verbatim>\<open>a; b\<close>: \<open>b\<close> runs only when \<open>a\<close> falls through.\<close>

definition Seq :: "'g stmt \<Rightarrow> 'g stmt \<Rightarrow> 'g stmt" where
  "Seq a b s = (case a s of Next s' \<Rightarrow> b s' | Return s' \<Rightarrow> Return s' | Abort \<Rightarrow> Abort)"

text \<open>The empty body \<^verbatim>\<open>{ }\<close>.\<close>

definition Skip :: "'g stmt" where
  "Skip s = Next s"

text \<open>
  A statement of the client's own: it changes the client state (or does not complete) and has
  no access to the result.
\<close>

definition Do :: "('g \<Rightarrow> 'g option) \<Rightarrow> 'g stmt" where
  "Do f s = (case f (client s) of None \<Rightarrow> Abort | Some g' \<Rightarrow> Next (s\<lparr>client := g'\<rparr>))"

text \<open>\<^verbatim>\<open>if (c) { a }\<close>, with a condition free of side effects.\<close>

definition IfThen :: "('g \<Rightarrow> bool) \<Rightarrow> 'g stmt \<Rightarrow> 'g stmt" where
  "IfThen c a s = (if c (client s) then a s else Next s)"

text \<open>\<^verbatim>\<open>for (int i = lo; i < hi; ++i) { body }\<close> run over the values \<open>i\<close> takes, in order.\<close>

fun For :: "int list \<Rightarrow> (int \<Rightarrow> 'g stmt) \<Rightarrow> 'g stmt" where
  "For [] body s = Next s"
| "For (i # is) body s =
     (case body i s of Next s' \<Rightarrow> For is body s' | Return s' \<Rightarrow> Return s' | Abort \<Rightarrow> Abort)"



text \<open>
  \<^verbatim>\<open>#define PASS() { __microunit_testresult->success = true; return; }\<close>
\<close>

definition PASS :: "'g stmt" where
  "PASS s = Return (s\<lparr>testresult := (testresult s)\<lparr>success := True\<rparr>\<rparr>)"

text \<open>
  \<^verbatim>\<open>#define FAIL() { std::cout << "[    ] Test failed " << std::endl;
  __microunit_testresult->success = false; return; }\<close>
\<close>

definition FAIL :: "'g stmt" where
  "FAIL s = Return (s\<lparr>written := written s @ [''[    ] Test failed ''],
                       testresult := (testresult s)\<lparr>success := False\<rparr>\<rparr>)"

text \<open>
  \<^verbatim>\<open>#define ASSERT_TRUE(condition) if(!(condition)) {
  std::cout << "[    ] Test Assert failed: " #condition << std::endl; FAIL(); }\<close>
  The condition is an expression free of side effects over the client state; \<open>text\<close> is its
  source text, which \<^verbatim>\<open>#condition\<close> pastes after the literal.
\<close>

definition ASSERT_TRUE :: "('g \<Rightarrow> bool) \<Rightarrow> string \<Rightarrow> 'g stmt" where
  "ASSERT_TRUE condition text s =
     (if \<not> condition (client s) then
        FAIL (s\<lparr>written := written s @ [''[    ] Test Assert failed: '' @ text]\<rparr>)
      else Next s)"

text \<open>
  \<^verbatim>\<open>#define ASSERT_FALSE(condition) if((condition)) {
  std::cout << "[    ] Test Assert failed: " #condition << std::endl; FAIL(); }\<close>
\<close>

definition ASSERT_FALSE :: "('g \<Rightarrow> bool) \<Rightarrow> string \<Rightarrow> 'g stmt" where
  "ASSERT_FALSE condition text s =
     (if condition (client s) then
        FAIL (s\<lparr>written := written s @ [''[    ] Test Assert failed: '' @ text]\<rparr>)
      else Next s)"

text \<open>
  The function that \<^verbatim>\<open>UNIT(FUNCTION) { body }\<close> defines: the body runs on the result behind
  the pointer, and running off its end returns as well.
\<close>

definition unit_function :: "'g stmt \<Rightarrow> 'g UnitFunction" where
  "unit_function body g r =
     (case body \<lparr>client = g, written = [], testresult = r\<rparr> of
        Next s \<Rightarrow> Some (client s, written s, testresult s)
      | Return s \<Rightarrow> Some (client s, written s, testresult s)
      | Abort \<Rightarrow> None)"

text \<open>
  \<^verbatim>\<open>REGISTER_UNIT(FUNCTION)\<close> constructs a static \<^verbatim>\<open>Registrator\<close> from \<^verbatim>\<open>#FUNCTION\<close> and the
  function; \<^verbatim>\<open>UNIT(FUNCTION)\<close> declares the function, registers it and opens its definition.
\<close>

definition REGISTER_UNIT :: "string \<Rightarrow> 'g UnitFunction \<Rightarrow> 'g process \<Rightarrow> 'g process" where
  "REGISTER_UNIT name fn p = Registrator name fn p"

definition UNIT :: "string \<Rightarrow> 'g stmt \<Rightarrow> 'g process \<Rightarrow> 'g process" where
  "UNIT name body p = REGISTER_UNIT name (unit_function body) p"

section \<open>The sample program\<close>

text \<open>
  \<^verbatim>\<open>sample.cpp\<close>. The arguments the tests pass lie between 0 and 999, where \<^verbatim>\<open>int\<close>
  arithmetic does not overflow.
\<close>

definition Double :: "int \<Rightarrow> int" where
  "Double n = 2 * n"

definition DoubleFlawed :: "int \<Rightarrow> int" where
  "DoubleFlawed n = (if n < 100 then 2 * n else 3 * n)"

definition Test_Two_Plus_Two :: "'g stmt" where
  "Test_Two_Plus_Two = ASSERT_TRUE (\<lambda>_. 2 + 2 = (4::int)) ''2 + 2 == 4''"

definition Test_Flawed_Two_Plus_Two :: "'g stmt" where
  "Test_Flawed_Two_Plus_Two = ASSERT_TRUE (\<lambda>_. 2 + 2 = (3::int)) ''2 + 2 == 3''"

definition Test_Double :: "'g stmt" where
  "Test_Double = For [0..999] (\<lambda>i. IfThen (\<lambda>_. Double i \<noteq> 2 * i) FAIL)"

definition Test_Double_Flawed :: "'g stmt" where
  "Test_Double_Flawed = For [0..999] (\<lambda>i. IfThen (\<lambda>_. DoubleFlawed i \<noteq> 2 * i) FAIL)"

text \<open>The four registrations, in the order of the file.\<close>

definition sample :: "'g process \<Rightarrow> 'g process" where
  "sample p =
     UNIT ''Test_Double_Flawed'' Test_Double_Flawed
       (UNIT ''Test_Double'' Test_Double
         (UNIT ''Test_Flawed_Two_Plus_Two'' Test_Flawed_Two_Plus_Two
           (UNIT ''Test_Two_Plus_Two'' Test_Two_Plus_Two p)))"

section \<open>What the specification observes\<close>

text \<open>
  The outcomes of the cases in the words of the specification (its section 4.4): for every
  entry in order, a fresh result with \<open>success = true\<close> is created, the function is invoked
  with it, and the outcome of the case is the result after the call returns. The list pairs
  each name with that outcome; it is \<open>None\<close> when a call does not return. This definition
  is not part of the program: the theorems compare \<open>Run\<close> with it.
\<close>

fun spec_outcomes :: "(string \<times> 'g UnitFunction) list \<Rightarrow> 'g \<Rightarrow> (string \<times> bool) list option" where
  "spec_outcomes [] g = Some []"
| "spec_outcomes (unit # units) g =
     (case snd unit g \<lparr>success = True\<rparr> of
        None \<Rightarrow> None
      | Some (g', printed, result') \<Rightarrow>
          (case spec_outcomes units g' of
             None \<Rightarrow> None
           | Some os \<Rightarrow> Some ((fst unit, success result') # os)))"

text \<open>
  To observe the order of the calls, a unit function is wrapped so that each call also notes
  the name it is registered under in a log, which the client state carries as a second
  component. The wrapped function does to the first component, to the output and to the
  result what the function itself does.
\<close>

definition traced :: "string \<times> 'g UnitFunction \<Rightarrow> string \<times> ('g \<times> string list) UnitFunction" where
  "traced unit =
     (fst unit,
      \<lambda>gl r. case snd unit (fst gl) r of
                None \<Rightarrow> None
              | Some (g', printed, r') \<Rightarrow> Some ((g', snd gl @ [fst unit]), printed, r'))"

text \<open>
  The bodies that reach the result through the macros only: they are built from the client's
  own statements, the four macros, sequencing, \<^verbatim>\<open>if\<close> and \<^verbatim>\<open>for\<close>.
\<close>

inductive macro_body :: "'g stmt \<Rightarrow> bool" where
  mb_Skip: "macro_body Skip"
| mb_Do: "macro_body (Do f)"
| mb_PASS: "macro_body PASS"
| mb_FAIL: "macro_body FAIL"
| mb_ASSERT_TRUE: "macro_body (ASSERT_TRUE c t)"
| mb_ASSERT_FALSE: "macro_body (ASSERT_FALSE c t)"
| mb_Seq: "macro_body a \<Longrightarrow> macro_body b \<Longrightarrow> macro_body (Seq a b)"
| mb_IfThen: "macro_body a \<Longrightarrow> macro_body (IfThen c a)"
| mb_For: "(\<And>i. macro_body (body i)) \<Longrightarrow> macro_body (For is body)"


section \<open>Registration during a run\<close>













section \<open>Properties of the ordered map\<close>

lemma emplace_keys: "fst ` set (emplace k v m) = insert k (fst ` set m)"
  by (induction m) auto

lemma emplace_subset: "set (emplace k v m) \<subseteq> insert (k, v) (set m)"
  by (induction m) auto

lemma map_ok_Cons: "map_ok (e # m) \<longleftrightarrow> (\<forall>x \<in> set m. fst e < fst x) \<and> map_ok m"
  by (auto simp: map_ok_def)

text \<open>\<^verbatim>\<open>emplace\<close> keeps the keys strictly ascending.\<close>

lemma emplace_ok: "map_ok m \<Longrightarrow> map_ok (emplace k v m)"
proof (induction m)
  case Nil
  then show ?case by (simp add: map_ok_def)
next
  case (Cons e m)
  then show ?case
    using emplace_subset [of k v m] by (auto simp: map_ok_Cons)
qed

lemma emplace_present: "map_ok m \<Longrightarrow> k \<in> fst ` set m \<Longrightarrow> emplace k v m = m"
  by (induction m) (auto simp: map_ok_Cons)

lemma emplace_entry:
  "map_ok m \<Longrightarrow> k \<notin> fst ` set m \<Longrightarrow> filter (\<lambda>e. fst e = k) (emplace k v m) = [(k, v)]"
proof (induction m)
  case Nil
  then show ?case by simp
next
  case (Cons e m)
  have none: "filter (\<lambda>x. fst x = k) m = []"
    using Cons.prems(2) by (auto simp: filter_empty_conv)
  from Cons none show ?case
    by (auto simp: map_ok_Cons)
qed

lemma emplace_other:
  "k' \<noteq> k \<Longrightarrow> filter (\<lambda>e. fst e = k') (emplace k v m) = filter (\<lambda>e. fst e = k') m"
  by (induction m) auto

lemma map_ok_split:
  "map_ok m \<Longrightarrow>
   m = filter (\<lambda>e. fst e < k) m @ filter (\<lambda>e. fst e = k) m @ filter (\<lambda>e. k < fst e) m"
proof (induction m)
  case Nil
  then show ?case by simp
next
  case (Cons e m)
  from Cons.prems have above: "\<forall>x \<in> set m. fst e < fst x" and ok: "map_ok m"
    by (simp_all add: map_ok_Cons)
  show ?case
  proof (cases "fst e < k")
    case True
    then show ?thesis using Cons.IH [OF ok] by auto
  next
    case False
    then have none: "filter (\<lambda>x. fst x < k) m = []"
      using above by (auto simp: filter_empty_conv)
    show ?thesis
    proof (cases "fst e = k")
      case True
      then have "filter (\<lambda>x. fst x = k) m = []"
        using above by (auto simp: filter_empty_conv)
      moreover have "filter (\<lambda>x. k < fst x) m = m"
        using above True by (auto simp: filter_id_conv)
      ultimately show ?thesis using True none by simp
    next
      case neq: False
      with False have gt: "k < fst e" by simp
      then have "filter (\<lambda>x. fst x = k) m = []"
        using above by (auto simp: filter_empty_conv)
      moreover have "filter (\<lambda>x. k < fst x) m = m"
        using above gt by (auto simp: filter_id_conv)
      ultimately show ?thesis using False neq gt none by simp
    qed
  qed
qed

section \<open>Properties of registration\<close>

lemma catalog_Register [simp]:
  "unitfunction_map (Instance (RegisterFunction n f p)) = emplace n f (unitfunction_map (Instance p))"
  by (simp add: RegisterFunction_def)

lemma register_all_ok:
  "map_ok (unitfunction_map (Instance p)) \<Longrightarrow> map_ok (unitfunction_map (Instance (register_all rs p)))"
  by (induction rs arbitrary: p) (simp_all add: Registrator_def emplace_ok)

lemma register_all_keys:
  "fst ` set (unitfunction_map (Instance (register_all rs p))) =
     fst ` set (unitfunction_map (Instance p)) \<union> fst ` set rs"
  by (induction rs arbitrary: p) (auto simp: Registrator_def emplace_keys)

lemma register_all_subset:
  "set (unitfunction_map (Instance (register_all rs p))) \<subseteq>
     set (unitfunction_map (Instance p)) \<union> set rs"
proof (induction rs arbitrary: p)
  case Nil
  then show ?case by simp
next
  case (Cons r rs)
  show ?case
    using Cons [of "Registrator (fst r) (snd r) p"] emplace_subset [of "fst r" "snd r" "unitfunction_map (Instance p)"]
    by (auto simp: Registrator_def)
qed

lemma register_all_entry:
  "map_ok (unitfunction_map (Instance p)) \<Longrightarrow>
   filter (\<lambda>e. fst e = k) (unitfunction_map (Instance p)) = [(k, v)] \<Longrightarrow>
   filter (\<lambda>e. fst e = k) (unitfunction_map (Instance (register_all rs p))) = [(k, v)]"
proof (induction rs arbitrary: p)
  case Nil
  then show ?case by simp
next
  case (Cons r rs)
  let ?m = "unitfunction_map (Instance p)"
  have present: "k \<in> fst ` set ?m"
  proof -
    have "(k, v) \<in> set (filter (\<lambda>e. fst e = k) ?m)" using Cons.prems(2) by simp
    then show ?thesis by force
  qed
  have "filter (\<lambda>e. fst e = k) (emplace (fst r) (snd r) ?m) = [(k, v)]"
  proof (cases "fst r = k")
    case True
    then show ?thesis using Cons.prems present by (simp add: emplace_present)
  next
    case False
    then show ?thesis using Cons.prems(2) by (simp add: emplace_other)
  qed
  then show ?case
    using Cons.IH [of "Registrator (fst r) (snd r) p"] Cons.prems(1)
    by (simp add: Registrator_def emplace_ok)
qed

lemma register_all_rest [simp]:
  "globals (register_all rs p) = globals p" "cout (register_all rs p) = cout p"
  by (induction rs arbitrary: p) (simp_all add: Registrator_def RegisterFunction_def)

lemma startup_ok: "map_ok (unitfunction_map (Instance (startup g)))"
  by (simp add: startup_def map_ok_def)

lemma map_ok_sorted_list: "map_ok m \<Longrightarrow> map fst m = sorted_list_of_set (fst ` set m)"
proof -
  assume "map_ok m"
  then have "sorted (map fst m)" and "distinct (map fst m)"
    by (simp_all add: map_ok_def strict_sorted_iff)
  then have "sorted_list_of_set (set (map fst m)) = map fst m"
    by (rule sorted_list_of_set.idem_if_sorted_distinct)
  then show ?thesis by simp
qed

section \<open>Properties of the loop\<close>

lemma run_unit_None:
  "snd u g \<lparr>success = True\<rparr> = None \<Longrightarrow> run_unit u (g, out, fs) = None"
  by (simp add: run_unit.simps UnitFunctionResult_default_def Let_def)

lemma run_unit_Some:
  "snd u g \<lparr>success = True\<rparr> = Some (g', printed, r) \<Longrightarrow>
   run_unit u (g, out, fs) =
     Some (g',
           out @ [MICROUNIT_SEPARATOR, ''[    ] Test case '' @ [CHR 0x27] @ fst u @ [CHR 0x27]]
               @ printed @ [if success r then ''[    ] Success'' else ''[!!!!] Failure''],
           fs @ (if success r then [] else [fst u]))"
  by (simp add: run_unit.simps UnitFunctionResult_default_def Let_def)

lemma run_units_append:
  "run_units (us @ vs) st = (case run_units us st of None \<Rightarrow> None | Some st' \<Rightarrow> run_units vs st')"
  by (induction us arbitrary: st) (simp_all split: option.splits)

lemma Run_three_parts:
  assumes "unitfunction_map (Instance p) = before @ u # after"
  shows "Run p =
     (case run_units before (globals p, cout p, []) of
        None \<Rightarrow> None
      | Some st1 \<Rightarrow>
          (case run_unit u st1 of
             None \<Rightarrow> None
           | Some st2 \<Rightarrow>
               (case run_units after st2 of
                  None \<Rightarrow> None
                | Some (g, out, failures) \<Rightarrow>
                    Some (p\<lparr>globals := g,
                            cout := out @ [MICROUNIT_SEPARATOR, MICROUNIT_SEPARATOR]
                              @ (if failures = [] then
                                   [''[    ] All tests passed'', MICROUNIT_SEPARATOR]
                                 else
                                   [''[!!!!] Failed '' @ show_nat (length failures)
                                      @ '' test cases:'']
                                   @ map (\<lambda>failure. ''> '' @ failure) failures
                                   @ [MICROUNIT_SEPARATOR])\<rparr>,
                          failures = []))))"
  unfolding Run_def assms run_units_append
  by (auto simp: Let_def split: option.splits)



lemma run_units_spec_None:
  "run_units us (g, out, fs) = None \<longleftrightarrow> spec_outcomes us g = None"
proof (induction us arbitrary: g out fs)
  case Nil
  then show ?case by simp
next
  case (Cons u us)
  show ?case
  proof (cases "snd u g \<lparr>success = True\<rparr>")
    case None
    then show ?thesis by (simp add: run_unit_None)
  next
    case (Some a)
    obtain g' printed r where a: "a = (g', printed, r)" by (cases a)
    show ?thesis
      using Some Cons.IH unfolding a
      by (simp add: run_unit_Some split: option.splits)
  qed
qed

lemma run_units_spec_Some:
  "run_units us (g, out, fs) = Some (g', out', fs') \<Longrightarrow>
   \<exists>os ls. spec_outcomes us g = Some os \<and> out' = out @ ls
          \<and> fs' = fs @ map fst (filter (\<lambda>e. \<not> snd e) os)"
proof (induction us arbitrary: g out fs)
  case Nil
  then show ?case by simp
next
  case (Cons u us)
  show ?case
  proof (cases "snd u g \<lparr>success = True\<rparr>")
    case None
    then show ?thesis using Cons.prems by (simp add: run_unit_None split: option.splits)
  next
    case (Some a)
    obtain g1 printed r where a: "a = (g1, printed, r)" by (cases a)
    note step = run_unit_Some [OF Some [unfolded a], of out fs]
    from Cons.prems step obtain out1 fs1 where
      rest: "run_units us (g1, out1, fs1) = Some (g', out', fs')"
      and out1: "\<exists>ls. out1 = out @ ls" and fs1: "fs1 = fs @ (if success r then [] else [fst u])"
      by (simp)
    from Cons.IH [OF rest] obtain os ls where
      os: "spec_outcomes us g1 = Some os" and ls: "out' = out1 @ ls"
      and fs': "fs' = fs1 @ map fst (filter (\<lambda>e. \<not> snd e) os)"
      by blast
    from out1 ls have "\<exists>ls'. out' = out @ ls'" by auto
    then show ?thesis
      using Some os fs' fs1 unfolding a by auto
  qed
qed

lemma Run_Instance: "Run p = Some (p', b) \<Longrightarrow> Instance p' = Instance p"
  by (auto simp: Run_def Let_def split: option.splits if_splits)

lemma Run_value:
  "map_option snd (Run p) =
     map_option (\<lambda>os. \<forall>e \<in> set os. snd e) (spec_outcomes (unitfunction_map (Instance p)) (globals p))"
proof (cases "run_units (unitfunction_map (Instance p)) (globals p, cout p, [])")
  case None
  then show ?thesis
    using run_units_spec_None [of "unitfunction_map (Instance p)" "globals p" "cout p" "[]"]
    by (simp add: Run_def)
next
  case (Some st)
  obtain g out fs where st: "st = (g, out, fs)" by (cases st)
  from run_units_spec_Some [OF Some [unfolded st]] obtain os where
    os: "spec_outcomes (unitfunction_map (Instance p)) (globals p) = Some os"
    and fs: "fs = map fst (filter (\<lambda>e. \<not> snd e) os)"
    by auto
  have "fs = [] \<longleftrightarrow> (\<forall>e \<in> set os. snd e)"
    unfolding fs by (auto simp: filter_empty_conv)
  then show ?thesis
    using Some st os by (simp add: Run_def Let_def)
qed

lemma spec_outcomes_deterministic:
  assumes "\<forall>e \<in> set m. \<forall>g g' r.
             map_option (\<lambda>x. snd (snd x)) (snd e g r) = map_option (\<lambda>x. snd (snd x)) (snd e g' r)"
  shows "spec_outcomes m g1 = spec_outcomes m g2"
  using assms
proof (induction m arbitrary: g1 g2)
  case Nil
  then show ?case by simp
next
  case (Cons u m)
  have same: "map_option (\<lambda>x. snd (snd x)) (snd u g1 \<lparr>success = True\<rparr>) =
              map_option (\<lambda>x. snd (snd x)) (snd u g2 \<lparr>success = True\<rparr>)"
  proof -
    have "\<forall>g g' r. map_option (\<lambda>x. snd (snd x)) (snd u g r) =
                     map_option (\<lambda>x. snd (snd x)) (snd u g' r)"
      using Cons.prems by simp
    then show ?thesis by blast
  qed
  have rest: "spec_outcomes m h1 = spec_outcomes m h2" for h1 h2
    using Cons.IH [of h1 h2] Cons.prems by simp
  show ?case
  proof (cases "snd u g1 \<lparr>success = True\<rparr>")
    case None
    then show ?thesis using same by simp
  next
    case (Some a)
    obtain h1 w1 r where a: "a = (h1, w1, r)" by (cases a)
    from Some same obtain h2 w2 where
      b: "snd u g2 \<lparr>success = True\<rparr> = Some (h2, w2, r)"
      unfolding a by (cases "snd u g2 \<lparr>success = True\<rparr>") auto
    show ?thesis
      using Some b rest [of h1 h2] unfolding a by simp
  qed
qed

lemma run_units_fresh:
  "list_all2 (\<lambda>u u'. fst u = fst u' \<and>
        (\<forall>g. snd u g \<lparr>success = True\<rparr> = snd u' g \<lparr>success = True\<rparr>)) us us' \<Longrightarrow>
   run_units us st = run_units us' st"
proof (induction us us' arbitrary: st rule: list_all2_induct)
  case Nil
  then show ?case by simp
next
  case (Cons u us u' us')
  obtain g out fs where st: "st = (g, out, fs)" by (cases st)
  have "run_unit u st = run_unit u' st"
    using Cons.hyps(1) unfolding st
    by (simp add: run_unit.simps UnitFunctionResult_default_def split: option.splits)
  then show ?case
    using Cons.IH by (simp split: option.splits)
qed

section \<open>Properties of the loop on the live map\<close>









section \<open>Properties of traced functions\<close>

lemma fst_traced [simp]: "fst (traced u) = fst u"
  by (simp add: traced_def)

lemma run_unit_traced:
  "run_unit (traced u) ((g, log), out, fs) =
     map_option (\<lambda>(g', out', fs'). ((g', log @ [fst u]), out', fs')) (run_unit u (g, out, fs))"
  by (simp add: run_unit.simps traced_def Let_def split: option.splits)

lemma run_units_traced:
  "run_units (map traced m) ((g, log), out, fs) =
     map_option (\<lambda>(g', out', fs'). ((g', log @ map fst m), out', fs')) (run_units m (g, out, fs))"
proof (induction m arbitrary: g log out fs)
  case Nil
  then show ?case by simp
next
  case (Cons u m)
  show ?case
  proof (cases "run_unit u (g, out, fs)")
    case None
    then show ?thesis by (simp add: run_unit_traced)
  next
    case (Some st)
    obtain g1 out1 fs1 where st: "st = (g1, out1, fs1)" by (cases st)
    show ?thesis
      using Some st Cons.IH [of g1 "log @ [fst u]" out1 fs1]
      by (simp add: run_unit_traced)
  qed
qed

lemma emplace_traced:
  "emplace (fst u) (snd (traced u)) (map traced m) = map traced (emplace (fst u) (snd u) m)"
  by (induction m) (simp_all add: traced_def)

lemma register_all_traced:
  "unitfunction_map (Instance q) = map traced (unitfunction_map (Instance p)) \<Longrightarrow>
   unitfunction_map (Instance (register_all (map traced rs) q)) =
     map traced (unitfunction_map (Instance (register_all rs p)))"
proof (induction rs arbitrary: p q)
  case Nil
  then show ?case by simp
next
  case (Cons r rs)
  show ?case
    using Cons.prems
    by (simp add: Registrator_def emplace_traced Cons.IH)
qed

section \<open>Properties of bodies\<close>

lemma For_all_Next: "(\<And>i s. i \<in> set is \<Longrightarrow> body i s = Next s) \<Longrightarrow> For is body s = Next s"
  by (induction "is") simp_all

lemma For_Next: "(\<And>i s. body i s = Next s) \<Longrightarrow> For is body s = Next s"
  by (induction "is") simp_all

lemma For_append:
  "For (is @ js) body s =
     (case For is body s of Next s' \<Rightarrow> For js body s' | Return s' \<Rightarrow> Return s' | Abort \<Rightarrow> Abort)"
  by (induction "is" arbitrary: s) (simp_all split: flow.splits)



lemma For_macro_Next:
  assumes step: "\<And>i s s'. body i s = Next s' \<Longrightarrow> testresult s' = testresult s"
  shows "For is body s = Next s' \<Longrightarrow> testresult s' = testresult s"
proof (induction "is" arbitrary: s)
  case Nil
  then show ?case by simp
next
  case (Cons i "is")
  from Cons.prems obtain s1 where
    first: "body i s = Next s1" and rest: "For is body s1 = Next s'"
    by (auto split: flow.splits)
  show ?case
    using step [OF first] Cons.IH [OF rest] by simp
qed

lemma macro_body_Next:
  "macro_body b \<Longrightarrow> b s = Next s' \<Longrightarrow> testresult s' = testresult s"
proof (induction arbitrary: s s' rule: macro_body.induct)
  case mb_Skip
  then show ?case by (simp add: Skip_def)
next
  case (mb_Do f)
  then show ?case by (auto simp: Do_def split: option.splits)
next
  case mb_PASS
  then show ?case by (simp add: PASS_def)
next
  case mb_FAIL
  then show ?case by (simp add: FAIL_def)
next
  case (mb_ASSERT_TRUE c t)
  then show ?case by (auto simp: ASSERT_TRUE_def FAIL_def split: if_splits)
next
  case (mb_ASSERT_FALSE c t)
  then show ?case by (auto simp: ASSERT_FALSE_def FAIL_def split: if_splits)
next
  case (mb_Seq a b)
  from mb_Seq.prems obtain s1 where
    first: "a s = Next s1" and second: "b s1 = Next s'"
    by (auto simp: Seq_def split: flow.splits)
  show ?case
    using mb_Seq.IH(1) [OF first] mb_Seq.IH(2) [OF second] by simp
next
  case (mb_IfThen a c)
  then show ?case by (auto simp: IfThen_def split: if_splits)
next
  case (mb_For body "is")
  show ?case
    using mb_For.IH mb_For.prems by (rule For_macro_Next)
qed



section \<open>The sample program, run\<close>

lemma Test_Two_Plus_Two_run: "Test_Two_Plus_Two s = Next s"
  by (simp add: Test_Two_Plus_Two_def ASSERT_TRUE_def)

lemma Test_Flawed_Two_Plus_Two_run:
  "Test_Flawed_Two_Plus_Two s =
     Return (s\<lparr>written := written s @ [''[    ] Test Assert failed: 2 + 2 == 3'', ''[    ] Test failed ''],
              testresult := (testresult s)\<lparr>success := False\<rparr>\<rparr>)"
  by (simp add: Test_Flawed_Two_Plus_Two_def ASSERT_TRUE_def FAIL_def)

lemma Test_Double_run: "Test_Double s = Next s"
  unfolding Test_Double_def
  by (rule For_Next) (simp add: IfThen_def Double_def)

lemma flawed_loop:
  assumes "0 \<le> lo" and "lo \<le> 100" and "100 \<le> hi"
  shows "For [lo..hi] (\<lambda>i. IfThen (\<lambda>_. DoubleFlawed i \<noteq> 2 * i) FAIL) s = FAIL s"
proof -
  let ?body = "\<lambda>i. IfThen (\<lambda>_. DoubleFlawed i \<noteq> 2 * i) FAIL"
  have split: "[lo..hi] = [lo..100 - 1] @ [100..hi]"
    using assms by (intro upto_split1) simp_all
  have rest: "[100..hi] = 100 # [100 + 1..hi]"
    using assms by (intro upto_rec1) simp
  have first: "For [lo..100 - 1] ?body s = Next s"
    by (rule For_all_Next) (simp add: IfThen_def DoubleFlawed_def)
  have at: "?body 100 s = FAIL s"
    by (simp add: IfThen_def DoubleFlawed_def)
  have "For (100 # [100 + 1..hi]) ?body s = FAIL s"
    unfolding For.simps at by (simp add: FAIL_def)
  then show ?thesis
    unfolding split rest For_append first by simp
qed

lemma Test_Double_Flawed_run:
  "Test_Double_Flawed s =
     Return (s\<lparr>written := written s @ [''[    ] Test failed ''],
              testresult := (testresult s)\<lparr>success := False\<rparr>\<rparr>)"
proof -
  have "Test_Double_Flawed s = FAIL s"
    unfolding Test_Double_Flawed_def by (rule flawed_loop) simp_all
  then show ?thesis by (simp add: FAIL_def)
qed


lemma sample_functions:
  "unit_function Test_Double g r = Some (g, [], r)"
  "unit_function Test_Two_Plus_Two g r = Some (g, [], r)"
  "unit_function Test_Double_Flawed g r = Some (g, [''[    ] Test failed ''], r\<lparr>success := False\<rparr>)"
  "unit_function Test_Flawed_Two_Plus_Two g r =
     Some (g, [''[    ] Test Assert failed: 2 + 2 == 3'', ''[    ] Test failed ''], r\<lparr>success := False\<rparr>)"
  by (simp_all add: unit_function_def Test_Double_run Test_Double_Flawed_run
        Test_Flawed_Two_Plus_Two_run Test_Two_Plus_Two_run)

lemma sample_catalog:
  "unitfunction_map (Instance (sample (startup g))) =
     [(''Test_Double'', unit_function Test_Double),
      (''Test_Double_Flawed'', unit_function Test_Double_Flawed),
      (''Test_Flawed_Two_Plus_Two'', unit_function Test_Flawed_Two_Plus_Two),
      (''Test_Two_Plus_Two'', unit_function Test_Two_Plus_Two)]"
  by (simp add: sample_def UNIT_def REGISTER_UNIT_def Registrator_def startup_def)

lemma sample_Run:
  "\<exists>p'. Run (sample (startup g)) = Some (p', False) \<and> globals p' = g \<and>
     cout p' =
      [MICROUNIT_SEPARATOR, ''[    ] Test case '' @ [CHR 0x27] @ ''Test_Double'' @ [CHR 0x27],
       ''[    ] Success'',
       MICROUNIT_SEPARATOR, ''[    ] Test case '' @ [CHR 0x27] @ ''Test_Double_Flawed'' @ [CHR 0x27],
       ''[    ] Test failed '', ''[!!!!] Failure'',
       MICROUNIT_SEPARATOR, ''[    ] Test case '' @ [CHR 0x27] @ ''Test_Flawed_Two_Plus_Two'' @ [CHR 0x27],
       ''[    ] Test Assert failed: 2 + 2 == 3'', ''[    ] Test failed '', ''[!!!!] Failure'',
       MICROUNIT_SEPARATOR, ''[    ] Test case '' @ [CHR 0x27] @ ''Test_Two_Plus_Two'' @ [CHR 0x27],
       ''[    ] Success'',
       MICROUNIT_SEPARATOR, MICROUNIT_SEPARATOR,
       ''[!!!!] Failed 2 test cases:'', ''> Test_Double_Flawed'', ''> Test_Flawed_Two_Plus_Two'',
       MICROUNIT_SEPARATOR]"
proof -
  have two: "show_nat (Suc (Suc 0)) = ''2''" by code_simp
  have rest: "globals (sample (startup g)) = g" "cout (sample (startup g)) = []"
    by (simp_all add: sample_def UNIT_def REGISTER_UNIT_def Registrator_def
        RegisterFunction_def startup_def)
  show ?thesis
    unfolding Run_def sample_catalog rest
    by (simp add: run_unit.simps unit_function_def UnitFunctionResult_default_def
        Test_Double_run Test_Double_Flawed_run Test_Flawed_Two_Plus_Two_run
        Test_Two_Plus_Two_run two)
qed

section \<open>The aggregate result and the reported failures\<close>

text \<open>
  C1. \<open>Run\<close> returns exactly when every call of a registered function returns. When it
  returns, its value is \<open>true\<close> if and only if no case recorded a failure; and the summary it
  writes last is the line that all tests passed when no case failed, and otherwise the line
  with the number \<open>K\<close> of the cases that recorded a failure, followed by the names of exactly
  those \<open>K\<close> cases, one per line, and a separator.
\<close>

theorem Run_reports_failures:
  "(Run p = None \<longleftrightarrow> spec_outcomes (unitfunction_map (Instance p)) (globals p) = None) \<and>
   (\<forall>p' b. Run p = Some (p', b) \<longrightarrow>
      (\<exists>os pre. spec_outcomes (unitfunction_map (Instance p)) (globals p) = Some os
         \<and> (b \<longleftrightarrow> (\<forall>e \<in> set os. snd e))
         \<and> cout p' = pre @
             (let failed = map fst (filter (\<lambda>e. \<not> snd e) os) in
              if failed = [] then [''[    ] All tests passed'', MICROUNIT_SEPARATOR]
              else [''[!!!!] Failed '' @ show_nat (length failed) @ '' test cases:'']
                   @ map (\<lambda>failure. ''> '' @ failure) failed @ [MICROUNIT_SEPARATOR])))"
proof (intro conjI allI impI)
  show "Run p = None \<longleftrightarrow> spec_outcomes (unitfunction_map (Instance p)) (globals p) = None"
    using run_units_spec_None [of "unitfunction_map (Instance p)" "globals p" "cout p" "[]"]
    by (auto simp: Run_def Let_def split: option.splits if_splits)
next
  fix p' b
  assume run: "Run p = Some (p', b)"
  let ?m = "unitfunction_map (Instance p)"
  from run obtain g out fs where
    loop: "run_units ?m (globals p, cout p, []) = Some (g, out, fs)"
    by (auto simp: Run_def split: option.splits)
  from run_units_spec_Some [OF loop] obtain os where
    os: "spec_outcomes ?m (globals p) = Some os"
    and fs: "fs = map fst (filter (\<lambda>e. \<not> snd e) os)"
    by auto
  have empty: "fs = [] \<longleftrightarrow> (\<forall>e \<in> set os. snd e)"
    unfolding fs by (auto simp: filter_empty_conv)
  have b: "b \<longleftrightarrow> fs = []"
    using run loop by (auto simp: Run_def Let_def split: if_splits)
  have out: "cout p' = (out @ [MICROUNIT_SEPARATOR, MICROUNIT_SEPARATOR]) @
      (if fs = [] then [''[    ] All tests passed'', MICROUNIT_SEPARATOR]
       else [''[!!!!] Failed '' @ show_nat (length fs) @ '' test cases:'']
            @ map (\<lambda>failure. ''> '' @ failure) fs @ [MICROUNIT_SEPARATOR])"
    using run loop by (auto simp: Run_def Let_def split: if_splits)
  show "\<exists>os pre. spec_outcomes ?m (globals p) = Some os
         \<and> (b \<longleftrightarrow> (\<forall>e \<in> set os. snd e))
         \<and> cout p' = pre @
             (let failed = map fst (filter (\<lambda>e. \<not> snd e) os) in
              if failed = [] then [''[    ] All tests passed'', MICROUNIT_SEPARATOR]
              else [''[!!!!] Failed '' @ show_nat (length failed) @ '' test cases:'']
                   @ map (\<lambda>failure. ''> '' @ failure) failed @ [MICROUNIT_SEPARATOR])"
    apply (rule exI [of _ os])
    apply (rule exI [of _ "out @ [MICROUNIT_SEPARATOR, MICROUNIT_SEPARATOR]"])
    using os b empty out unfolding fs Let_def by simp
qed


theorem Run_reports_failures_witness:
  "\<exists>p'. Run (sample (startup ())) = Some (p', False)
     \<and> spec_outcomes (unitfunction_map (Instance (sample (startup ())))) () =
           Some [(''Test_Double'', True), (''Test_Double_Flawed'', False),
                 (''Test_Flawed_Two_Plus_Two'', False), (''Test_Two_Plus_Two'', True)]
     \<and> (\<exists>pre. cout p' = pre @ [''[!!!!] Failed 2 test cases:'', ''> Test_Double_Flawed'',
                                   ''> Test_Flawed_Two_Plus_Two'', MICROUNIT_SEPARATOR])"
proof -
  let ?p = "sample (startup ())"
  obtain p' where run: "Run ?p = Some (p', False)"
    using sample_Run [of "()"] by blast
  have outcomes: "spec_outcomes (unitfunction_map (Instance ?p)) () =
      Some [(''Test_Double'', True), (''Test_Double_Flawed'', False),
            (''Test_Flawed_Two_Plus_Two'', False), (''Test_Two_Plus_Two'', True)]"
    unfolding sample_catalog
    by (simp add: unit_function_def Test_Double_run Test_Double_Flawed_run
        Test_Flawed_Two_Plus_Two_run Test_Two_Plus_Two_run)
  have two: "show_nat (Suc (Suc 0)) = ''2''" by code_simp
  from Run_reports_failures [of ?p] run obtain os pre where
    os: "spec_outcomes (unitfunction_map (Instance ?p)) (globals ?p) = Some os"
    and out: "cout p' = pre @
             (let failed = map fst (filter (\<lambda>e. \<not> snd e) os) in
              if failed = [] then [''[    ] All tests passed'', MICROUNIT_SEPARATOR]
              else [''[!!!!] Failed '' @ show_nat (length failed) @ '' test cases:'']
                   @ map (\<lambda>failure. ''> '' @ failure) failed @ [MICROUNIT_SEPARATOR])"
    by blast
  have "os = [(''Test_Double'', True), (''Test_Double_Flawed'', False),
              (''Test_Flawed_Two_Plus_Two'', False), (''Test_Two_Plus_Two'', True)]"
    using os outcomes by simp
  with out have "cout p' = pre @ [''[!!!!] Failed 2 test cases:'', ''> Test_Double_Flawed'',
                                   ''> Test_Flawed_Two_Plus_Two'', MICROUNIT_SEPARATOR]"
    by (simp add: two)
  with run outcomes show ?thesis by blast
qed

section \<open>Two registrations under one name\<close>

text \<open>
  C2. In a process whose map does not hold \<open>name\<close> yet, \<open>name\<close> is registered with \<open>f1\<close>,
  any registrations \<open>rs\<close> follow, and \<open>name\<close> is registered again with \<open>f2\<close>. The second
  registration leaves the whole process as it was (nothing is written and nothing is
  returned, so no error reaches the caller); the map holds exactly one entry for \<open>name\<close>,
  bound to \<open>f1\<close>; and \<open>Run\<close> on the catalog runs the cases with the names below \<open>name\<close>,
  then makes one pass of its loop body with \<open>f1\<close> as the function of \<open>name\<close>, then runs the
  cases with the names above \<open>name\<close> and writes the summary: it calls \<open>f1\<close> for \<open>name\<close>,
  once, and \<open>f2\<close> not at all under that name.
\<close>

theorem second_registration_is_noop:
  assumes "map_ok (unitfunction_map (Instance p))"
      and "name \<notin> fst ` set (unitfunction_map (Instance p))"
  shows "let p1 = register_all rs (RegisterFunction name f1 p);
             p2 = RegisterFunction name f2 p1;
             m = unitfunction_map (Instance p2)
         in p2 = p1
          \<and> filter (\<lambda>e. fst e = name) m = [(name, f1)]
          \<and> Run p2 = Run p1
          \<and> Run p2 =
              (case run_units (filter (\<lambda>e. fst e < name) m) (globals p, cout p, []) of
                 None \<Rightarrow> None
               | Some st1 \<Rightarrow>
                   (case run_unit (name, f1) st1 of
                      None \<Rightarrow> None
                    | Some st2 \<Rightarrow>
                        (case run_units (filter (\<lambda>e. name < fst e) m) st2 of
                           None \<Rightarrow> None
                         | Some (g, out, failures) \<Rightarrow>
                             Some (p2\<lparr>globals := g,
                                     cout := out @ [MICROUNIT_SEPARATOR, MICROUNIT_SEPARATOR]
                                       @ (if failures = [] then
                                            [''[    ] All tests passed'', MICROUNIT_SEPARATOR]
                                          else
                                            [''[!!!!] Failed '' @ show_nat (length failures)
                                               @ '' test cases:'']
                                            @ map (\<lambda>failure. ''> '' @ failure) failures
                                            @ [MICROUNIT_SEPARATOR])\<rparr>,
                                   failures = []))))"
proof -
  let ?q = "RegisterFunction name f1 p"
  let ?p1 = "register_all rs ?q"
  let ?m = "unitfunction_map (Instance ?p1)"
  have ok_q: "map_ok (unitfunction_map (Instance ?q))"
    using assms(1) by (simp add: emplace_ok)
  have entry_q: "filter (\<lambda>e. fst e = name) (unitfunction_map (Instance ?q)) = [(name, f1)]"
    using assms by (simp add: emplace_entry)
  have ok1: "map_ok ?m"
    using ok_q by (rule register_all_ok)
  have entry1: "filter (\<lambda>e. fst e = name) ?m = [(name, f1)]"
    using ok_q entry_q by (rule register_all_entry)
  have "(name, f1) \<in> set (filter (\<lambda>e. fst e = name) ?m)"
    using entry1 by simp
  then have present: "name \<in> fst ` set ?m"
    by force
  have same: "RegisterFunction name f2 ?p1 = ?p1"
    using ok1 present by (simp add: RegisterFunction_def emplace_present)
  have parts: "?m = filter (\<lambda>e. fst e < name) ?m @ (name, f1) # filter (\<lambda>e. name < fst e) ?m"
    using map_ok_split [OF ok1, of name] entry1 by simp
  have rest: "globals ?p1 = globals p" "cout ?p1 = cout p"
    by (simp_all add: RegisterFunction_def)
  note run = Run_three_parts [OF parts, unfolded rest]
  show ?thesis
    unfolding Let_def same using entry1 run by simp
qed

theorem second_registration_is_noop_witness:
  "map_ok (unitfunction_map (Instance (startup (0::nat))))
   \<and> ''A'' \<notin> fst ` set (unitfunction_map (Instance (startup (0::nat))))
   \<and> (let p1 = register_all [(''B'', unit_function Skip)]
                  (RegisterFunction ''A'' (unit_function (Do (\<lambda>n. Some (n + 1)))) (startup (0::nat)));
           p2 = RegisterFunction ''A'' (unit_function (Seq (Do (\<lambda>n. Some (n + 2))) FAIL)) p1
       in p2 = p1
        \<and> filter (\<lambda>e. fst e = ''A'') (unitfunction_map (Instance p2)) =
            [(''A'', unit_function (Do (\<lambda>n. Some (n + 1))))]
        \<and> map_option (\<lambda>r. (globals (fst r), snd r)) (Run p2) = Some (1, True))"
proof -
  let ?f1 = "unit_function (Do (\<lambda>n::nat. Some (n + 1)))"
  let ?f2 = "unit_function (Seq (Do (\<lambda>n::nat. Some (n + 2))) FAIL)"
  have ok: "map_ok (unitfunction_map (Instance (startup (0::nat))))"
    by (rule startup_ok)
  have absent: "''A'' \<notin> fst ` set (unitfunction_map (Instance (startup (0::nat))))"
    by (simp add: startup_def)
  let ?P = "\<lparr>Instance = \<lparr>unitfunction_map = [(''A'', ?f1), (''B'', unit_function Skip)]\<rparr>,
              globals = 0::nat, cout = []\<rparr>"
  have p1: "register_all [(''B'', unit_function Skip)]
              (RegisterFunction ''A'' ?f1 (startup (0::nat))) = ?P"
    by (simp add: Registrator_def RegisterFunction_def startup_def)
  have p2: "RegisterFunction ''A'' ?f2 ?P = ?P"
    by (simp add: RegisterFunction_def)
  have run: "map_option (\<lambda>r. (globals (fst r), snd r)) (Run ?P) = Some (1, True)"
    by (simp add: Run_def run_unit.simps unit_function_def Do_def Skip_def
        UnitFunctionResult_default_def)
  from second_registration_is_noop [OF ok absent, of "[(''B'', unit_function Skip)]" ?f1 ?f2]
  have "filter (\<lambda>e. fst e = ''A'') (unitfunction_map (Instance ?P)) = [(''A'', ?f1)]"
    unfolding Let_def p1 p2 by blast
  then show ?thesis
    unfolding Let_def p1 p2 using ok absent run by simp
qed

section \<open>An assert whose polarity is violated\<close>




section \<open>Fail and return\<close>




section \<open>The fresh result and the default pass\<close>

text \<open>
  C5. The driver calls every function of the catalog on a result whose \<open>success\<close> is true:
  two catalogs with the same names whose functions agree on such a result make the same
  loop, whatever the functions do on other results. And a body that reaches the result
  through the macros only and runs off its end, no macro having returned from it, leaves
  the result as the driver created it; the case is recorded as a success and its name is
  not pushed on \<^verbatim>\<open>failures\<close>.
\<close>

theorem fresh_result_default_pass:
  "(list_all2 (\<lambda>u u'. fst u = fst u' \<and>
        (\<forall>g. snd u g \<lparr>success = True\<rparr> = snd u' g \<lparr>success = True\<rparr>)) us us' \<longrightarrow>
      run_units us st = run_units us' st)
   \<and> (macro_body body \<and>
      body \<lparr>client = g, written = [], testresult = UnitFunctionResult_default\<rparr> = Next s \<longrightarrow>
        testresult s = \<lparr>success = True\<rparr>
        \<and> run_unit (name, unit_function body) (g, out, failures) =
            Some (client s,
                  out @ [MICROUNIT_SEPARATOR, ''[    ] Test case '' @ [CHR 0x27] @ name @ [CHR 0x27]]
                      @ written s @ [''[    ] Success''],
                  failures))"
proof (intro conjI impI)
  assume "list_all2 (\<lambda>u u'. fst u = fst u' \<and>
        (\<forall>g. snd u g \<lparr>success = True\<rparr> = snd u' g \<lparr>success = True\<rparr>)) us us'"
  then show "run_units us st = run_units us' st" by (rule run_units_fresh)
next
  assume body: "macro_body body \<and>
      body \<lparr>client = g, written = [], testresult = UnitFunctionResult_default\<rparr> = Next s"
  then have "testresult s = UnitFunctionResult_default"
    using macro_body_Next [of body "\<lparr>client = g, written = [], testresult = UnitFunctionResult_default\<rparr>" s]
    by simp
  then show untouched: "testresult s = \<lparr>success = True\<rparr>"
    by (simp add: UnitFunctionResult_default_def)
  have "unit_function body g \<lparr>success = True\<rparr> = Some (client s, written s, testresult s)"
    using body unfolding UnitFunctionResult_default_def by (simp add: unit_function_def)
  then show "run_unit (name, unit_function body) (g, out, failures) =
            Some (client s,
                  out @ [MICROUNIT_SEPARATOR, ''[    ] Test case '' @ [CHR 0x27] @ name @ [CHR 0x27]]
                      @ written s @ [''[    ] Success''],
                  failures)"
    using untouched by (simp add: run_unit.simps UnitFunctionResult_default_def)
qed

theorem fresh_result_default_pass_witness:
  "list_all2 (\<lambda>u u'. fst u = fst u' \<and>
        (\<forall>g. snd u g \<lparr>success = True\<rparr> = snd u' g \<lparr>success = True\<rparr>))
      [(''a'', unit_function Skip :: unit UnitFunction)] [(''a'', unit_function PASS)]
   \<and> unit_function Skip () \<lparr>success = False\<rparr> \<noteq> unit_function PASS () \<lparr>success = False\<rparr>
   \<and> run_units [(''a'', unit_function Skip)] ((), [], []) =
     run_units [(''a'', unit_function PASS)] ((), [], [])
   \<and> macro_body (Seq (Test_Two_Plus_Two :: unit stmt) Test_Double)
   \<and> Seq Test_Two_Plus_Two Test_Double
        \<lparr>client = (), written = [], testresult = UnitFunctionResult_default\<rparr> =
      Next \<lparr>client = (), written = [], testresult = UnitFunctionResult_default\<rparr>
   \<and> run_unit (''t'', unit_function (Seq Test_Two_Plus_Two Test_Double)) ((), [], []) =
       Some ((), [MICROUNIT_SEPARATOR, ''[    ] Test case '' @ [CHR 0x27] @ ''t'' @ [CHR 0x27],
                  ''[    ] Success''], [])"
proof -
  let ?s = "\<lparr>client = (), written = [], testresult = UnitFunctionResult_default\<rparr>"
  have agree: "list_all2 (\<lambda>u u'. fst u = fst u' \<and>
        (\<forall>g. snd u g \<lparr>success = True\<rparr> = snd u' g \<lparr>success = True\<rparr>))
      [(''a'', unit_function Skip :: unit UnitFunction)] [(''a'', unit_function PASS)]"
    by (simp add: unit_function_def Skip_def PASS_def)
  have differ: "unit_function Skip () \<lparr>success = False\<rparr> \<noteq> unit_function PASS () \<lparr>success = False\<rparr>"
    by (simp add: unit_function_def Skip_def PASS_def)
  have mb: "macro_body (Seq (Test_Two_Plus_Two :: unit stmt) Test_Double)"
    unfolding Test_Two_Plus_Two_def Test_Double_def
    by (intro macro_body.intros)
  have run: "Seq Test_Two_Plus_Two Test_Double ?s = Next ?s"
    by (simp add: Seq_def Test_Two_Plus_Two_run Test_Double_run)
  from fresh_result_default_pass [of "[(''a'', unit_function Skip)]" "[(''a'', unit_function PASS)]"
      "((), [], [])" "Seq Test_Two_Plus_Two Test_Double" "()" ?s "''t''" "[]" "[]"]
    agree differ mb run
  show ?thesis by simp
qed

section \<open>The order of execution\<close>

text \<open>
  C6. Whatever the order of the registrations, the map holds the registered names in
  ascending order of \<open>string\<close> (bytes compared in turn, a proper prefix first), each once; and
  when every registered function is wrapped so that its calls are logged, \<open>Run\<close> does what
  it does on the functions themselves (same return value, same output, same client state)
  and the log of the calls is the list of the registered names in ascending order, one call
  for each. \<open>Run\<close> is a function of the process: the order is the same in every run.
\<close>

theorem Run_sorted_order:
  "map fst (unitfunction_map (Instance (register_all rs (startup g)))) =
     sorted_list_of_set (fst ` set rs)
   \<and> map_option (\<lambda>(p', b). (globals p', cout p', b))
         (Run (register_all (map traced rs) (startup (g, [])))) =
       map_option (\<lambda>(p', b). ((globals p', sorted_list_of_set (fst ` set rs)), cout p', b))
         (Run (register_all rs (startup g)))"
proof
  let ?m = "unitfunction_map (Instance (register_all rs (startup g)))"
  show names: "map fst ?m = sorted_list_of_set (fst ` set rs)"
    using map_ok_sorted_list [OF register_all_ok [OF startup_ok, of rs g]]
    by (simp add: register_all_keys startup_def)
  have catalog: "unitfunction_map (Instance (register_all (map traced rs) (startup (g, [])))) =
      map traced ?m"
    by (rule register_all_traced) (simp add: startup_def)
  have start: "globals (startup x) = x" "cout (startup x) = []" for x :: 'b
    by (simp_all add: startup_def)
  show "map_option (\<lambda>(p', b). (globals p', cout p', b))
         (Run (register_all (map traced rs) (startup (g, [])))) =
       map_option (\<lambda>(p', b). ((globals p', sorted_list_of_set (fst ` set rs)), cout p', b))
         (Run (register_all rs (startup g)))"
    unfolding Run_def catalog register_all_rest start run_units_traced names [symmetric]
    by (cases "run_units ?m (g, [], [])") (auto simp: Let_def)
qed

theorem Run_sorted_order_witness:
  "\<exists>p'. Run (register_all (map traced [(''b'', unit_function Skip), (''a'', unit_function FAIL),
                                          (''ab'', unit_function Skip), (''a'', unit_function Skip)])
                (startup ((), []))) = Some (p', False)
      \<and> snd (globals p') = [''a'', ''ab'', ''b'']"
proof -
  let ?rs = "[(''b'', unit_function Skip), (''a'', unit_function FAIL),
              (''ab'', unit_function Skip), (''a'', unit_function Skip)] :: (string \<times> unit UnitFunction) list"
  have "\<exists>p. Run (register_all ?rs (startup ())) = Some (p, False)"
    by (simp add: Run_def startup_def Registrator_def RegisterFunction_def
        run_unit.simps unit_function_def Skip_def FAIL_def UnitFunctionResult_default_def)
  then obtain p where run: "Run (register_all ?rs (startup ())) = Some (p, False)" by blast
  have names: "sorted_list_of_set (fst ` set ?rs) = [''a'', ''ab'', ''b'']"
    by code_simp
  from Run_sorted_order [of ?rs "()"] run names show ?thesis by auto
qed

section \<open>An assert whose polarity holds\<close>

text \<open>
  C7. Let the statements before an assert fall through to it, and let the condition of an
  \<^verbatim>\<open>ASSERT_TRUE\<close> be true there, or the condition of an \<^verbatim>\<open>ASSERT_FALSE\<close> be false. Then the
  assert falls through with the frame unchanged (nothing is written, the result is as it
  was), the statements after it run from that frame, the body does what it does without the
  assert, and the driver records the same for the case with the assert as without it.
\<close>

theorem holding_assert_continues:
  assumes "pre s0 = Next s"
      and "(a = ASSERT_TRUE condition text \<and> condition (client s))
         \<or> (a = ASSERT_FALSE condition text \<and> \<not> condition (client s))"
  shows "a s = Next s
       \<and> Seq pre (Seq a post) s0 = post s
       \<and> Seq pre (Seq a post) s0 = Seq pre post s0
       \<and> (s0 = \<lparr>client = g, written = [], testresult = UnitFunctionResult_default\<rparr> \<longrightarrow>
            run_unit (name, unit_function (Seq pre (Seq a post))) (g, out, failures) =
            run_unit (name, unit_function (Seq pre post)) (g, out, failures))"
proof -
  have at: "a s = Next s"
    using assms(2) by (auto simp: ASSERT_TRUE_def ASSERT_FALSE_def)
  have with_a: "Seq pre (Seq a post) s0 = post s"
    using assms(1) at by (simp add: Seq_def)
  have without: "Seq pre post s0 = post s"
    using assms(1) by (simp add: Seq_def)
  show ?thesis
  proof (intro conjI impI)
    show "a s = Next s" by (rule at)
    show "Seq pre (Seq a post) s0 = post s" by (rule with_a)
    show "Seq pre (Seq a post) s0 = Seq pre post s0" using with_a without by simp
  next
    assume s0: "s0 = \<lparr>client = g, written = [], testresult = UnitFunctionResult_default\<rparr>"
    have "unit_function (Seq pre (Seq a post)) g UnitFunctionResult_default =
          unit_function (Seq pre post) g UnitFunctionResult_default"
      using with_a without unfolding s0 by (simp add: unit_function_def)
    then show "run_unit (name, unit_function (Seq pre (Seq a post))) (g, out, failures) =
            run_unit (name, unit_function (Seq pre post)) (g, out, failures)"
      by (simp add: run_unit.simps split: option.splits)
  qed
qed

theorem holding_assert_continues_witness:
  "Do (\<lambda>n. Some (n + 1)) \<lparr>client = (4::nat), written = [], testresult = UnitFunctionResult_default\<rparr>
     = Next \<lparr>client = 5, written = [], testresult = UnitFunctionResult_default\<rparr>
   \<and> ((ASSERT_TRUE (\<lambda>n. n = 5) ''n == 5'' = ASSERT_TRUE (\<lambda>n. n = 5) ''n == 5'' \<and> (5::nat) = 5)
      \<or> (ASSERT_TRUE (\<lambda>n. n = 5) ''n == 5'' = ASSERT_FALSE (\<lambda>n. n = 5) ''n == 5'' \<and> \<not> (5::nat) = 5))
   \<and> run_unit (''t'', unit_function (Seq (Do (\<lambda>n::nat. Some (n + 1)))
                        (Seq (ASSERT_TRUE (\<lambda>n. n = 5) ''n == 5'') (Do (\<lambda>n. Some (n + 100))))))
        (4, [], []) =
       Some (105, [MICROUNIT_SEPARATOR, ''[    ] Test case '' @ [CHR 0x27] @ ''t'' @ [CHR 0x27],
                   ''[    ] Success''], [])"
proof -
  let ?start = "\<lparr>client = (4::nat), written = [], testresult = UnitFunctionResult_default\<rparr>"
  let ?s = "\<lparr>client = (5::nat), written = [], testresult = UnitFunctionResult_default\<rparr>"
  have pre: "Do (\<lambda>n. Some (n + 1)) ?start = Next ?s"
    by (simp add: Do_def)
  have plain: "run_unit (''t'', unit_function (Seq (Do (\<lambda>n. Some (n + 1))) (Do (\<lambda>n. Some (n + 100)))))
        (4::nat, [], []) =
       Some (105, [MICROUNIT_SEPARATOR, ''[    ] Test case '' @ [CHR 0x27] @ ''t'' @ [CHR 0x27],
                   ''[    ] Success''], [])"
    by (simp add: run_unit.simps unit_function_def Seq_def Do_def UnitFunctionResult_default_def)
  from holding_assert_continues [of "Do (\<lambda>n. Some (n + 1))" ?start ?s
      "ASSERT_TRUE (\<lambda>n. n = 5) ''n == 5''" "\<lambda>n. n = 5" "''n == 5''"
      "Do (\<lambda>n. Some (n + 100))" 4 "''t''" "[]" "[]"] pre plain
  show ?thesis by simp
qed

section \<open>Repeated runs\<close>

text \<open>
  C8. Let every function of the catalog be a function of its result parameter alone:
  whether a call returns, and the result it leaves, do not depend on the client state under
  which it is called. Then the outcomes of the cases and the value of \<open>Run\<close> are the same
  from any two client states and outputs; in particular a second \<open>Run\<close>, from the state the
  first one left, has the same outcomes and returns the same value.
\<close>

theorem Run_deterministic:
  assumes "\<forall>e \<in> set m. \<forall>g g' r.
             map_option (\<lambda>x. snd (snd x)) (snd e g r) = map_option (\<lambda>x. snd (snd x)) (snd e g' r)"
  shows "spec_outcomes m g1 = spec_outcomes m g2
     \<and> map_option snd (Run \<lparr>Instance = \<lparr>unitfunction_map = m\<rparr>, globals = g1, cout = out1\<rparr>) =
       map_option snd (Run \<lparr>Instance = \<lparr>unitfunction_map = m\<rparr>, globals = g2, cout = out2\<rparr>)
     \<and> (\<forall>p1 b1. Run \<lparr>Instance = \<lparr>unitfunction_map = m\<rparr>, globals = g1, cout = out1\<rparr> = Some (p1, b1) \<longrightarrow>
          map_option snd (Run p1) = Some b1
          \<and> spec_outcomes (unitfunction_map (Instance p1)) (globals p1) = spec_outcomes m g1)"
proof (intro conjI allI impI)
  show "spec_outcomes m g1 = spec_outcomes m g2"
    using assms by (rule spec_outcomes_deterministic)
  then show "map_option snd (Run \<lparr>Instance = \<lparr>unitfunction_map = m\<rparr>, globals = g1, cout = out1\<rparr>) =
       map_option snd (Run \<lparr>Instance = \<lparr>unitfunction_map = m\<rparr>, globals = g2, cout = out2\<rparr>)"
    by (simp add: Run_value)
next
  fix p1 b1
  assume run: "Run \<lparr>Instance = \<lparr>unitfunction_map = m\<rparr>, globals = g1, cout = out1\<rparr> = Some (p1, b1)"
  then have inst: "unitfunction_map (Instance p1) = m"
    using Run_Instance [OF run] by simp
  show again: "spec_outcomes (unitfunction_map (Instance p1)) (globals p1) = spec_outcomes m g1"
    unfolding inst using assms by (rule spec_outcomes_deterministic)
  have "map_option snd (Run p1) =
        map_option snd (Run \<lparr>Instance = \<lparr>unitfunction_map = m\<rparr>, globals = g1, cout = out1\<rparr>)"
    unfolding Run_value again by simp
  then show "map_option snd (Run p1) = Some b1"
    using run by simp
qed

theorem Run_deterministic_witness:
  "list_all (\<lambda>e. \<forall>(g::nat) g' r.
        map_option (\<lambda>x. snd (snd x)) (snd e g r) = map_option (\<lambda>x. snd (snd x)) (snd e g' r))
      [(''Test_Double'', unit_function Test_Double),
       (''Test_Double_Flawed'', unit_function Test_Double_Flawed),
       (''Test_Flawed_Two_Plus_Two'', unit_function Test_Flawed_Two_Plus_Two),
       (''Test_Two_Plus_Two'', unit_function Test_Two_Plus_Two)]
   \<and> map_option snd (Run (sample (startup (0::nat)))) = Some False
   \<and> map_option snd (Run ((sample (startup (0::nat)))\<lparr>globals := 7, cout := [''x'']\<rparr>)) = Some False"
proof -
  let ?m = "[(''Test_Double'', unit_function Test_Double),
             (''Test_Double_Flawed'', unit_function Test_Double_Flawed),
             (''Test_Flawed_Two_Plus_Two'', unit_function Test_Flawed_Two_Plus_Two),
             (''Test_Two_Plus_Two'', unit_function Test_Two_Plus_Two)] :: (string \<times> nat UnitFunction) list"
  have p0: "sample (startup (0::nat)) = \<lparr>Instance = \<lparr>unitfunction_map = ?m\<rparr>, globals = 0, cout = []\<rparr>"
    by (simp add: sample_def UNIT_def REGISTER_UNIT_def Registrator_def RegisterFunction_def
        startup_def)
  have hyp: "\<forall>e \<in> set ?m. \<forall>g g' r.
       map_option (\<lambda>x. snd (snd x)) (snd e g r) = map_option (\<lambda>x. snd (snd x)) (snd e g' r)"
    by (simp add: sample_functions)
  have first: "map_option snd (Run \<lparr>Instance = \<lparr>unitfunction_map = ?m\<rparr>, globals = 0, cout = []\<rparr>) = Some False"
    unfolding Run_value by (simp add: sample_functions)
  from Run_deterministic [OF hyp, of 0 7 "[]" "[''x'']"] hyp first show ?thesis
    unfolding p0 by (simp add: list_all_iff)
qed

section \<open>Independence of the cases, and the catalog under Run\<close>




section \<open>The empty catalog\<close>

text \<open>
  C10. When no test case was registered the map is empty; \<open>Run\<close> then returns, its value is
  \<open>true\<close>, and it writes two separators, the line that all tests passed and a separator.
\<close>

theorem Run_empty_catalog:
  "Run \<lparr>Instance = \<lparr>unitfunction_map = []\<rparr>, globals = g, cout = out\<rparr> =
     Some (\<lparr>Instance = \<lparr>unitfunction_map = []\<rparr>, globals = g,
            cout = out @ [MICROUNIT_SEPARATOR, MICROUNIT_SEPARATOR,
                          ''[    ] All tests passed'', MICROUNIT_SEPARATOR]\<rparr>, True)"
  by (simp add: Run_def)

end
